theory Spec2Isabelle
  imports Main "HOL-Library.Multiset"
begin

section \<open>Disk scheduling simulator: SSTF, C-SCAN and the per-move table\<close>

text \<open>
  The development embeds the two scheduling functions of \<^verbatim>\<open>Simulation.py\<close>
  (\<^verbatim>\<open>sstf\<close>, \<^verbatim>\<open>cscan\<close>) and the loop of \<^verbatim>\<open>DiskSchedulerApp.simulate\<close>
  that fills the per-move table. Python integers are unbounded, so cylinders, head positions
  and seek totals are \<^typ>\<open>int\<close>; list indices are \<^typ>\<open>nat\<close>. A seek plan is the
  pair \<^verbatim>\<open>(seq, total)\<close> that both functions return. Python floats are IEEE 754
  doubles; the two float operations of the table loop are modelled bit for bit.
\<close>

subsection \<open>Errors\<close>

text \<open>
  The only operations of \<^verbatim>\<open>sstf\<close> that can raise are the subscripts
  \<^verbatim>\<open>visited[i]\<close>, \<^verbatim>\<open>visited[nearest_idx]\<close> and \<^verbatim>\<open>reqs[nearest_idx]\<close>:
  an index out of range raises \<^verbatim>\<open>IndexError\<close>, and the index \<^verbatim>\<open>None\<close> (no unvisited
  request was found by the scan) raises \<^verbatim>\<open>TypeError\<close>. \<^verbatim>\<open>cscan\<close> has no operation
  that can raise on integers. In the table loop of \<^verbatim>\<open>simulate\<close> the product
  \<^verbatim>\<open>dist * float(ms_per_cyl)\<close> converts the integer \<^verbatim>\<open>dist\<close> to a float, which raises
  \<^verbatim>\<open>OverflowError\<close> when the integer is too large for a double.
\<close>

datatype py_error = TypeError | IndexError | OverflowError

subsection \<open>SSTF\<close>

text \<open>
  The inner loop of \<^verbatim>\<open>sstf\<close>:
  \<^verbatim>\<open>
    nearest_idx = None
    min_dist = float("inf")
    for i, r in enumerate(reqs):
        if not visited[i]:
            d = abs(cur - r)
            if d < min_dist:
                min_dist = d
                nearest_idx = i
  \<close>
  The two variables are assigned together, so their joint value is either
  \<^verbatim>\<open>(None, inf)\<close>, written \<^term>\<open>None\<close>, or an index with its integer distance,
  written \<^term>\<open>Some (i, d)\<close>. Every integer is below \<^verbatim>\<open>inf\<close>.
\<close>

fun dist_less :: "int \<Rightarrow> (nat \<times> int) option \<Rightarrow> bool" where
  "dist_less d None = True"
| "dist_less d (Some (i, min_dist)) = (d < min_dist)"

fun scan :: "int \<Rightarrow> bool list \<Rightarrow> (nat \<times> int) list \<Rightarrow> (nat \<times> int) option
    \<Rightarrow> py_error + (nat \<times> int) option" where
  "scan cur visited [] best = Inr best"
| "scan cur visited ((i, r) # rest) best =
     (if length visited \<le> i then Inl IndexError
      else if \<not> visited ! i then
        (let d = \<bar>cur - r\<bar>
         in if dist_less d best then scan cur visited rest (Some (i, d))
            else scan cur visited rest best)
      else scan cur visited rest best)"

text \<open>
  The loop state of \<^verbatim>\<open>sstf\<close> is \<^verbatim>\<open>(visited, total, cur, seq)\<close>, written \<open>(visited, tot, cur, seq)\<close>. One iteration of the
  outer loop runs the scan and then
  \<^verbatim>\<open>
    visited[nearest_idx] = True
    total += min_dist
    cur = reqs[nearest_idx]
    seq.append(cur)
  \<close>
\<close>

type_synonym sstf_state = "bool list \<times> int \<times> int \<times> int list"

fun sstf_step :: "int list \<Rightarrow> sstf_state \<Rightarrow> py_error + sstf_state" where
  "sstf_step reqs (visited, tot, cur, seq) =
     (case scan cur visited (enumerate 0 reqs) None of
        Inl e \<Rightarrow> Inl e
      | Inr None \<Rightarrow> Inl TypeError
      | Inr (Some (nearest_idx, min_dist)) \<Rightarrow>
          if length visited \<le> nearest_idx then Inl IndexError
          else if length reqs \<le> nearest_idx then Inl IndexError
          else Inr (visited[nearest_idx := True], tot + min_dist,
                    reqs ! nearest_idx, seq @ [reqs ! nearest_idx]))"

text \<open>\<^verbatim>\<open>for _ in range(len(reqs))\<close>: the body runs a fixed number of times.\<close>

fun sstf_loop :: "nat \<Rightarrow> int list \<Rightarrow> sstf_state \<Rightarrow> py_error + sstf_state" where
  "sstf_loop 0 reqs st = Inr st"
| "sstf_loop (Suc n) reqs st =
     (case sstf_step reqs st of
        Inl e \<Rightarrow> Inl e
      | Inr st' \<Rightarrow> sstf_loop n reqs st')"

definition sstf :: "int list \<Rightarrow> int \<Rightarrow> py_error + (int list \<times> int)" where
  "sstf requests_list head =
     (if requests_list = [] then Inr ([], 0)
      else
        (case sstf_loop (length requests_list) requests_list
                (replicate (length requests_list) False, 0, head, []) of
           Inl e \<Rightarrow> Inl e
         | Inr (visited, tot, cur, seq) \<Rightarrow> Inr (seq, tot)))"

subsection \<open>C-SCAN\<close>

text \<open>
  The state of \<^verbatim>\<open>cscan\<close> is \<^verbatim>\<open>(seq, total, curr)\<close>, written \<open>(seq, tot, cur)\<close>. Both \<^verbatim>\<open>for r in ...\<close> loops have
  the same body:
  \<^verbatim>\<open>
    total += abs(curr - r)
    curr = r
    seq.append(curr)
  \<close>
\<close>

type_synonym cscan_state = "int list \<times> int \<times> int"

fun service :: "int list \<Rightarrow> cscan_state \<Rightarrow> cscan_state" where
  "service [] st = st"
| "service (r # rs) (seq, tot, cur) = service rs (seq @ [r], tot + \<bar>cur - r\<bar>, r)"

text \<open>
  \<^verbatim>\<open>
    if curr != disk_size - 1:
        total += abs((disk_size - 1) - curr)
        curr = disk_size - 1
  \<close>
\<close>

fun move_to_end :: "int \<Rightarrow> cscan_state \<Rightarrow> cscan_state" where
  "move_to_end disk_size (seq, tot, cur) =
     (if cur \<noteq> disk_size - 1
      then (seq, tot + \<bar>(disk_size - 1) - cur\<bar>, disk_size - 1)
      else (seq, tot, cur))"

text \<open>
  \<^verbatim>\<open>
    if count_jump:
        total += curr
    curr = 0
  \<close>
\<close>

fun jump_to_0 :: "bool \<Rightarrow> cscan_state \<Rightarrow> cscan_state" where
  "jump_to_0 count_jump (seq, tot, cur) =
     (seq, (if count_jump then tot + cur else tot), 0)"

definition left_part :: "int list \<Rightarrow> int \<Rightarrow> int list" where
  "left_part requests_list head = sort (filter (\<lambda>r. r < head) requests_list)"

definition right_part :: "int list \<Rightarrow> int \<Rightarrow> int list" where
  "right_part requests_list head = sort (filter (\<lambda>r. head \<le> r) requests_list)"

definition cscan :: "int list \<Rightarrow> int \<Rightarrow> int \<Rightarrow> bool \<Rightarrow> int list \<times> int" where
  "cscan requests_list head disk_size count_jump =
     (if requests_list = [] then ([], 0)
      else
        (case service (left_part requests_list head)
                (jump_to_0 count_jump
                  (move_to_end disk_size
                    (service (right_part requests_list head) ([], 0, head)))) of
           (seq, tot, cur) \<Rightarrow> (seq, tot)))"

subsection \<open>Python floats\<close>

text \<open>
  A Python float is an IEEE 754 binary64 value. \<open>Finite s m e\<close> stands for
  \<open>(-1)^s \<sqdot> m \<sqdot> 2^e\<close>; the doubles are the values with \<open>0 \<le> m < 2^53\<close> and
  \<open>- 1074 \<le> e \<le> 971\<close>, written with \<open>2^52 \<le> m\<close> unless \<open>e = - 1074\<close> (zero and the
  subnormal numbers), so that every double has one representation. \<open>Infinity s\<close> is
  \<^verbatim>\<open>inf\<close> or \<^verbatim>\<open>-inf\<close>. All NaNs are one value: the table shows every NaN as \<^verbatim>\<open>nan\<close>.
\<close>

datatype pyfloat = Finite bool int int | Infinity bool | NaN

text \<open>\<^verbatim>\<open>int.bit_length\<close>: the number of binary digits of a positive integer.\<close>

function bit_length :: "int \<Rightarrow> nat" where
  "bit_length n = (if n \<le> 0 then 0 else Suc (bit_length (n div 2)))"
  by pat_completeness auto
termination
  by (relation "measure nat") auto

declare bit_length.simps [simp del]

text \<open>
  Rounding of the exact value \<open>m \<sqdot> 2^e\<close> (\<open>m \<ge> 0\<close>) to the nearest double, ties to the
  even mantissa, as the hardware multiplication and CPython's conversion of an integer
  do. \<open>u\<close> is the exponent of the last mantissa digit that a double of this size keeps;
  a value that rounds beyond the largest double, \<open>(2^53 - 1) \<sqdot> 2^971\<close>, becomes infinite.
\<close>

definition pack :: "bool \<Rightarrow> int \<Rightarrow> int \<Rightarrow> pyfloat" where
  "pack s n u = (if 971 < u then Infinity s else Finite s n u)"

definition round_double :: "bool \<Rightarrow> int \<Rightarrow> int \<Rightarrow> pyfloat" where
  "round_double s m e =
     (if m \<le> 0 then Finite s 0 (- 1074)
      else
        (let u = max (int (bit_length m) + e - 53) (- 1074)
         in if u \<le> e then pack s (m * 2 ^ nat (e - u)) u
            else
              (let k = nat (u - e);
                   q = m div 2 ^ k;
                   r = m mod 2 ^ k;
                   n = (if 2 ^ k < 2 * r \<or> (2 * r = 2 ^ k \<and> odd q) then q + 1 else q)
               in if n = 2 ^ 53 then pack s (2 ^ 52) (u + 1) else pack s n u)))"

text \<open>
  The product of two floats. It never raises: a product too large is infinite, and
  \<open>0 \<sqdot> inf\<close> is NaN.
\<close>

fun float_mul :: "pyfloat \<Rightarrow> pyfloat \<Rightarrow> pyfloat" where
  "float_mul NaN y = NaN"
| "float_mul (Infinity s) NaN = NaN"
| "float_mul (Finite s m e) NaN = NaN"
| "float_mul (Infinity s) (Infinity t) = Infinity (s \<noteq> t)"
| "float_mul (Infinity s) (Finite t n f) = (if n = 0 then NaN else Infinity (s \<noteq> t))"
| "float_mul (Finite s m e) (Infinity t) = (if m = 0 then NaN else Infinity (s \<noteq> t))"
| "float_mul (Finite s m e) (Finite t n f) = round_double (s \<noteq> t) (m * n) (e + f)"

text \<open>
  The conversion of an integer to a float rounds in the same way and raises
  \<^verbatim>\<open>OverflowError\<close> (\<^verbatim>\<open>int too large to convert to float\<close>) when the rounded value is beyond
  the largest double, that is from \<open>2^1024 - 2^970\<close> on, halfway between the largest
  double and \<open>2^1024\<close>.
\<close>

definition int_too_large :: "int \<Rightarrow> bool" where
  "int_too_large d \<longleftrightarrow> 2 ^ 1024 - 2 ^ 970 \<le> \<bar>d\<bar>"

definition float_of_int :: "int \<Rightarrow> py_error + pyfloat" where
  "float_of_int d =
     (if int_too_large d then Inl OverflowError
      else Inr (round_double (d < 0) \<bar>d\<bar> 0))"

text \<open>
  \<^verbatim>\<open>d * x\<close> for an integer \<^verbatim>\<open>d\<close> and a float \<^verbatim>\<open>x\<close>: the integer is converted, then the
  floats are multiplied.
\<close>

definition int_times_float :: "int \<Rightarrow> pyfloat \<Rightarrow> py_error + pyfloat" where
  "int_times_float d x =
     (case float_of_int d of Inl err \<Rightarrow> Inl err | Inr a \<Rightarrow> Inr (float_mul a x))"

subsection \<open>The per-move table of \<^verbatim>\<open>simulate\<close>\<close>

text \<open>
  After scheduling, \<^verbatim>\<open>simulate\<close> walks the visit order and creates one table row per
  entry:
  \<^verbatim>\<open>
    cumulative = 0
    curr = head
    for i, pos in enumerate(seq, start=1):
        dist = abs(curr - pos)
        cumulative += dist
        latency = dist * float(ms_per_cyl)
        ... one row of labels: i, pos, dist, latency, cumulative ...
        self.table_rows.append(...)
        curr = pos
  \<close>
  A row is modelled by the five values its labels show. \<^verbatim>\<open>ms_per_cyl\<close> is a float already,
  so \<^verbatim>\<open>float(ms_per_cyl)\<close> is \<^verbatim>\<open>ms_per_cyl\<close>. When the product raises, the loop is left
  with the rows appended so far; the error is returned together with them.
\<close>

record move_event =
  index :: nat
  targetCylinder :: int
  stepDistance :: int
  stepLatencyMs :: pyfloat
  cumulativeSeek :: int

type_synonym replay_state = "int \<times> int \<times> move_event list"

fun fill_rows :: "pyfloat \<Rightarrow> (nat \<times> int) list \<Rightarrow> replay_state
    \<Rightarrow> (py_error \<times> move_event list) + replay_state" where
  "fill_rows ms_per_cyl [] st = Inr st"
| "fill_rows ms_per_cyl ((i, pos) # rest) (cumulative, cur, table_rows) =
     (let dist = \<bar>cur - pos\<bar>;
          cumulative' = cumulative + dist
      in case int_times_float dist ms_per_cyl of
           Inl err \<Rightarrow> Inl (err, table_rows)
         | Inr latency \<Rightarrow>
             fill_rows ms_per_cyl rest
               (cumulative', pos,
                table_rows @ [\<lparr>index = i, targetCylinder = pos, stepDistance = dist,
                               stepLatencyMs = latency, cumulativeSeek = cumulative'\<rparr>]))"

definition replay :: "pyfloat \<Rightarrow> int list \<Rightarrow> int
    \<Rightarrow> (py_error \<times> move_event list) + replay_state" where
  "replay ms_per_cyl seq head = fill_rows ms_per_cyl (enumerate 1 seq) (0, head, [])"

section \<open>Notions used in the statements\<close>

text \<open>
  The cost of a path, in the words of the specification: the sum of the absolute differences
  along \<open>p \<rightarrow> xs ! 0 \<rightarrow> xs ! 1 \<rightarrow> \<dots>\<close>. It is not taken from the code; the totals that the
  code accumulates are compared with it.
\<close>

fun path_cost :: "int \<Rightarrow> int list \<Rightarrow> int" where
  "path_cost p [] = 0"
| "path_cost p (x # xs) = \<bar>p - x\<bar> + path_cost x xs"

text \<open>The indices that \<^verbatim>\<open>sstf\<close> has not yet marked in \<^verbatim>\<open>visited\<close>.\<close>

definition unvisited :: "bool list \<Rightarrow> nat set" where
  "unvisited visited = {i. i < length visited \<and> \<not> visited ! i}"

text \<open>
  The invariant of the scan after the indices below \<open>k\<close>: the pair held is the first
  unvisited index of least distance among them, or nothing when all of them are visited.
\<close>

definition best_upto :: "int \<Rightarrow> int list \<Rightarrow> bool list \<Rightarrow> nat \<Rightarrow> (nat \<times> int) option \<Rightarrow> bool" where
  "best_upto cur reqs visited k best =
     (case best of
        None \<Rightarrow> (\<forall>j<k. visited ! j)
      | Some (i, d) \<Rightarrow>
          i < k \<and> \<not> visited ! i \<and> d = \<bar>cur - reqs ! i\<bar> \<and>
          (\<forall>j<k. \<not> visited ! j \<longrightarrow>
             d \<le> \<bar>cur - reqs ! j\<bar> \<and> (\<bar>cur - reqs ! j\<bar> = d \<longrightarrow> i \<le> j)))"

text \<open>What row \<open>i\<close> (counted from 0) of the table must hold for the visit order \<open>seq\<close>.\<close>

definition event_ok :: "pyfloat \<Rightarrow> int list \<Rightarrow> int \<Rightarrow> move_event list \<Rightarrow> nat \<Rightarrow> bool" where
  "event_ok ms seq head rows i \<longleftrightarrow>
     index (rows ! i) = i + 1 \<and>
     targetCylinder (rows ! i) = seq ! i \<and>
     stepDistance (rows ! i) = \<bar>(head # seq) ! i - seq ! i\<bar> \<and>
     int_times_float (stepDistance (rows ! i)) ms = Inr (stepLatencyMs (rows ! i)) \<and>
     cumulativeSeek (rows ! i) = (\<Sum>k\<le>i. stepDistance (rows ! k))"

text \<open>Every step of the walk from \<open>head\<close> along \<open>seq\<close> has a distance that converts to a float.\<close>

definition steps_convertible :: "int \<Rightarrow> int list \<Rightarrow> bool" where
  "steps_convertible head seq \<longleftrightarrow>
     (\<forall>i<length seq. \<not> int_too_large ((head # seq) ! i - seq ! i))"

section \<open>C-SCAN: the phases in closed form\<close>

lemma path_cost_snoc:
  "path_cost p (xs @ [x]) = path_cost p xs + \<bar>last (p # xs) - x\<bar>"
  by (induction xs arbitrary: p) auto

lemma service_eq:
  "service xs (seq, tot, cur) = (seq @ xs, tot + path_cost cur xs, last (cur # xs))"
  by (induction xs arbitrary: seq tot cur) auto

lemma cscan_unfold:
  assumes "reqs \<noteq> []"
  shows "cscan reqs head ds cj =
     (right_part reqs head @ left_part reqs head,
      path_cost head (right_part reqs head)
        + \<bar>(ds - 1) - last (head # right_part reqs head)\<bar>
        + (if cj then ds - 1 else 0)
        + path_cost 0 (left_part reqs head))"
  using assms by (simp add: cscan_def service_eq)

lemma mset_parts: "mset (right_part reqs head) + mset (left_part reqs head) = mset reqs"
proof -
  have "(\<lambda>r. r < head) = (\<lambda>r. \<not> head \<le> r)" by auto
  then show ?thesis
    by (simp add: right_part_def left_part_def)
qed

lemma mset_cscan: "mset (fst (cscan reqs head ds cj)) = mset reqs"
proof (cases "reqs = []")
  case True
  then show ?thesis by (simp add: cscan_def)
next
  case False
  then show ?thesis by (simp add: cscan_unfold mset_parts)
qed

lemma sort_cong_mset: "mset xs = mset ys \<Longrightarrow> sort xs = sort ys"
  by (metis sorted_list_of_multiset_mset)

section \<open>The table loop in closed form\<close>

lemma int_times_float_ok:
  assumes "\<not> int_too_large d"
  shows "\<exists>latency. int_times_float \<bar>d\<bar> ms = Inr latency"
  using assms by (simp add: int_times_float_def float_of_int_def int_too_large_def)

lemma int_times_float_raises:
  assumes "int_too_large d"
  shows "int_times_float \<bar>d\<bar> ms = Inl OverflowError"
  using assms by (simp add: int_times_float_def float_of_int_def int_too_large_def)

lemma fill_rows_append:
  "fill_rows ms (xs @ ys) st =
     (case fill_rows ms xs st of Inl err \<Rightarrow> Inl err | Inr st' \<Rightarrow> fill_rows ms ys st')"
proof (induction xs arbitrary: st)
  case Nil
  show ?case by simp
next
  case (Cons a xs)
  obtain i pos where a: "a = (i, pos)" by (cases a)
  obtain c p rows where st: "st = (c, p, rows)" by (cases st)
  show ?case by (simp add: a st Cons.IH Let_def split: sum.splits)
qed

lemma replay_append:
  "replay ms (xs @ ys) head =
     (case replay ms xs head of
        Inl err \<Rightarrow> Inl err
      | Inr st \<Rightarrow> fill_rows ms (enumerate (Suc (length xs)) ys) st)"
  by (simp add: replay_def enumerate_append_eq fill_rows_append)

lemma replay_snoc:
  "replay ms (xs @ [x]) head =
     (case replay ms xs head of
        Inl err \<Rightarrow> Inl err
      | Inr (c, p, rows) \<Rightarrow>
          (case int_times_float \<bar>p - x\<bar> ms of
             Inl err \<Rightarrow> Inl (err, rows)
           | Inr latency \<Rightarrow>
               Inr (c + \<bar>p - x\<bar>, x,
                 rows @ [\<lparr>index = Suc (length xs), targetCylinder = x, stepDistance = \<bar>p - x\<bar>,
                           stepLatencyMs = latency, cumulativeSeek = c + \<bar>p - x\<bar>\<rparr>])))"
  by (simp add: replay_append Let_def split: sum.splits prod.splits)

lemma nth_Cons_snoc_last: "(head # xs @ [x]) ! length xs = last (head # xs)"
proof -
  have "(head # xs @ [x]) ! length xs = ((head # xs) @ [x]) ! length xs" by simp
  also have "\<dots> = (head # xs) ! length xs" by (simp only: nth_append) simp
  also have "\<dots> = last (head # xs)"
    by (metis last_conv_nth length_Cons list.distinct(1) diff_Suc_1)
  finally show ?thesis .
qed

lemma nth_Cons_snoc_old: "i < length xs \<Longrightarrow> (head # xs @ [x]) ! i = (head # xs) ! i"
  by (metis append_Cons length_Cons less_Suc_eq nth_append_left)

lemma steps_convertible_snoc:
  "steps_convertible head (xs @ [x]) \<longleftrightarrow>
     steps_convertible head xs \<and> \<not> int_too_large (last (head # xs) - x)"
proof -
  have a: "(\<forall>i<length xs. \<not> int_too_large ((head # xs @ [x]) ! i - (xs @ [x]) ! i)) \<longleftrightarrow>
           (\<forall>i<length xs. \<not> int_too_large ((head # xs) ! i - xs ! i))"
    by (simp add: nth_Cons_snoc_old nth_append)
  have b: "(head # xs @ [x]) ! length xs - (xs @ [x]) ! length xs = last (head # xs) - x"
    by (simp only: nth_Cons_snoc_last) simp
  have "steps_convertible head (xs @ [x]) \<longleftrightarrow>
      (\<forall>i<length xs. \<not> int_too_large ((head # xs @ [x]) ! i - (xs @ [x]) ! i))
      \<and> \<not> int_too_large ((head # xs @ [x]) ! length xs - (xs @ [x]) ! length xs)"
    unfolding steps_convertible_def by (auto simp: less_Suc_eq)
  then show ?thesis unfolding a b by (simp add: steps_convertible_def)
qed

text \<open>
  When every step converts, the loop ends; its state holds the cost of the path, the last
  entry and one row per entry.
\<close>

lemma replay_inv:
  assumes "steps_convertible head seq"
  shows "\<exists>rows. replay ms seq head = Inr (path_cost head seq, last (head # seq), rows)
     \<and> length rows = length seq
     \<and> path_cost head seq = (\<Sum>k<length seq. stepDistance (rows ! k))
     \<and> (\<forall>i<length seq. event_ok ms seq head rows i)"
  using assms
proof (induction seq rule: rev_induct)
  case Nil
  show ?case by (simp add: replay_def)
next
  case (snoc x xs)
  define p where "p = last (head # xs)"
  from snoc.prems have okxs: "steps_convertible head xs" and okx: "\<not> int_too_large (p - x)"
    by (simp_all add: steps_convertible_snoc p_def)
  from snoc.IH[OF okxs] obtain rows where
    r: "replay ms xs head = Inr (path_cost head xs, last (head # xs), rows)"
    and len: "length rows = length xs"
    and sum: "path_cost head xs = (\<Sum>k<length xs. stepDistance (rows ! k))"
    and ev: "\<forall>i<length xs. event_ok ms xs head rows i"
    by blast
  from int_times_float_ok[OF okx] obtain latency where
    lat: "int_times_float \<bar>p - x\<bar> ms = Inr latency" by blast
  define e where "e = \<lparr>index = Suc (length xs), targetCylinder = x, stepDistance = \<bar>p - x\<bar>,
                     stepLatencyMs = latency, cumulativeSeek = path_cost head xs + \<bar>p - x\<bar>\<rparr>"
  have pc: "path_cost head (xs @ [x]) = path_cost head xs + \<bar>p - x\<bar>"
    by (simp only: path_cost_snoc p_def)
  have e_sel: "index e = Suc (length xs)" "targetCylinder e = x" "stepDistance e = \<bar>p - x\<bar>"
    "stepLatencyMs e = latency" "cumulativeSeek e = path_cost head xs + \<bar>p - x\<bar>"
    by (simp_all add: e_def)
  have lst: "last (head # xs @ [x]) = x" by simp
  have r': "replay ms (xs @ [x]) head =
      Inr (path_cost head (xs @ [x]), last (head # xs @ [x]), rows @ [e])"
    unfolding replay_snoc r pc lst using lat by (simp add: e_def p_def)
  have old: "stepDistance ((rows @ [e]) ! k) = stepDistance (rows ! k)" if "k < length xs" for k
    using that len by (simp add: nth_append)
  have new: "(rows @ [e]) ! length xs = e"
    using len by (simp add: nth_append)
  have sum_old: "(\<Sum>k<length xs. stepDistance ((rows @ [e]) ! k)) = path_cost head xs"
    using old by (simp add: sum)
  have sum': "path_cost head (xs @ [x]) =
      (\<Sum>k<length (xs @ [x]). stepDistance ((rows @ [e]) ! k))"
    by (simp add: sum_old new pc e_sel)
  have p_nth: "(head # xs @ [x]) ! length xs = p"
    by (simp only: nth_Cons_snoc_last p_def)
  have sum_le: "(\<Sum>k\<le>length xs. stepDistance ((rows @ [e]) ! k)) = path_cost head xs + \<bar>p - x\<bar>"
    using sum' pc by (simp add: lessThan_Suc_atMost)
  have ev_new: "event_ok ms (xs @ [x]) head (rows @ [e]) (length xs)"
    unfolding event_ok_def new p_nth sum_le e_sel using lat by simp
  have ev_old: "event_ok ms (xs @ [x]) head (rows @ [e]) i" if "i < length xs" for i
  proof -
    have a: "event_ok ms xs head rows i" using ev that by blast
    have b: "(\<Sum>k\<le>i. stepDistance ((rows @ [e]) ! k)) = (\<Sum>k\<le>i. stepDistance (rows ! k))"
      using that old by (intro sum.cong) auto
    have c: "(head # xs @ [x]) ! i = (head # xs) ! i"
      using that by (rule nth_Cons_snoc_old)
    have f1: "(rows @ [e]) ! i = rows ! i" using that len by (simp add: nth_append)
    have f2: "(xs @ [x]) ! i = xs ! i" using that by (simp add: nth_append)
    show ?thesis
      using a unfolding event_ok_def f1 f2 c b .
  qed
  have "\<forall>i<length (xs @ [x]). event_ok ms (xs @ [x]) head (rows @ [e]) i"
    using ev_new ev_old by (auto simp: less_Suc_eq)
  then show ?case using r' sum' len by auto
qed

section \<open>SSTF: the scan, one iteration, the loop\<close>

lemma best_upto_step:
  assumes "best_upto cur reqs visited k best"
  shows "best_upto cur reqs visited (Suc k)
           (if \<not> visited ! k then
              (if dist_less \<bar>cur - reqs ! k\<bar> best then Some (k, \<bar>cur - reqs ! k\<bar>) else best)
            else best)"
proof (cases best)
  case None
  then show ?thesis using assms by (auto simp: best_upto_def less_Suc_eq)
next
  case (Some a)
  obtain i d where a: "a = (i, d)" by (cases a)
  show ?thesis using assms unfolding Some a best_upto_def
    by (auto simp: less_Suc_eq)
qed

lemma scan_enumerate:
  assumes "k + length xs \<le> length visited" and "xs = drop k reqs"
    and "best_upto cur reqs visited k best"
  shows "\<exists>best'. scan cur visited (enumerate k xs) best = Inr best'
           \<and> best_upto cur reqs visited (k + length xs) best'"
  using assms
proof (induction xs arbitrary: k best)
  case Nil
  then show ?case by simp
next
  case (Cons x xs)
  have k: "k < length reqs" using Cons.prems(2) by (metis drop_eq_Nil list.distinct(1) not_le)
  have "x # xs = reqs ! k # drop (Suc k) reqs"
    using Cons.prems(2) Cons_nth_drop_Suc[OF k] by simp
  then have x: "x = reqs ! k" and xs: "xs = drop (Suc k) reqs"
    by simp_all
  let ?b = "(if \<not> visited ! k then
              (if dist_less \<bar>cur - reqs ! k\<bar> best then Some (k, \<bar>cur - reqs ! k\<bar>) else best)
            else best)"
  have b: "best_upto cur reqs visited (Suc k) ?b"
    by (rule best_upto_step[OF Cons.prems(3)])
  have len: "Suc k + length xs \<le> length visited" using Cons.prems(1) by simp
  from Cons.IH[OF len xs b] obtain best' where
    s: "scan cur visited (enumerate (Suc k) xs) ?b = Inr best'"
    and u: "best_upto cur reqs visited (Suc k + length xs) best'" by blast
  have kv: "\<not> length visited \<le> k" using Cons.prems(1) by simp
  have "scan cur visited (enumerate k (x # xs)) best = scan cur visited (enumerate (Suc k) xs) ?b"
    using kv by (simp add: x Let_def)
  then show ?case using s u by simp
qed

lemma best_upto_None: "best_upto cur reqs visited 0 None"
  by (simp add: best_upto_def)

lemma scan_all:
  assumes "length visited = length reqs"
  shows "\<exists>best'. scan cur visited (enumerate 0 reqs) None = Inr best'
           \<and> best_upto cur reqs visited (length reqs) best'"
  using scan_enumerate[of 0 reqs visited reqs cur None] assms best_upto_None by simp

lemma sstf_step_select:
  assumes len: "length visited = length reqs" and ne: "unvisited visited \<noteq> {}"
  shows "\<exists>i. i < length reqs \<and> \<not> visited ! i
           \<and> (\<forall>j<length reqs. \<not> visited ! j \<longrightarrow>
                 \<bar>cur - reqs ! i\<bar> \<le> \<bar>cur - reqs ! j\<bar>
                 \<and> (\<bar>cur - reqs ! j\<bar> = \<bar>cur - reqs ! i\<bar> \<longrightarrow> i \<le> j))
           \<and> sstf_step reqs (visited, tot, cur, seq) =
                Inr (visited[i := True], tot + \<bar>cur - reqs ! i\<bar>, reqs ! i, seq @ [reqs ! i])"
proof -
  from scan_all[OF len] obtain best' where
    s: "scan cur visited (enumerate 0 reqs) None = Inr best'"
    and u: "best_upto cur reqs visited (length reqs) best'" by blast
  from ne obtain j where j: "j < length reqs" "\<not> visited ! j"
    using len by (auto simp: unvisited_def)
  have "best' \<noteq> None"
  proof
    assume "best' = None"
    with u j show False by (simp add: best_upto_def)
  qed
  then obtain i d where b: "best' = Some (i, d)" by (cases best') auto
  have p: "i < length reqs" "\<not> visited ! i" "d = \<bar>cur - reqs ! i\<bar>"
    "\<forall>j<length reqs. \<not> visited ! j \<longrightarrow>
             d \<le> \<bar>cur - reqs ! j\<bar> \<and> (\<bar>cur - reqs ! j\<bar> = d \<longrightarrow> i \<le> j)"
    using u unfolding b best_upto_def by auto
  have "sstf_step reqs (visited, tot, cur, seq) =
          Inr (visited[i := True], tot + \<bar>cur - reqs ! i\<bar>, reqs ! i, seq @ [reqs ! i])"
    using p(1) p(3) len by (simp add: s b)
  then show ?thesis using p by blast
qed

lemma unvisited_mark:
  assumes "i < length visited"
  shows "unvisited (visited[i := True]) = unvisited visited - {i}"
  using assms by (auto simp: unvisited_def nth_list_update)

lemma finite_unvisited: "finite (unvisited visited)"
  by (simp add: unvisited_def)

lemma unvisited_replicate: "unvisited (replicate n False) = {..<n}"
  by (auto simp: unvisited_def)

lemma mset_nth_upto: "image_mset ((!) xs) (mset_set {..<length xs}) = mset xs"
proof -
  have "mset_set {..<length xs} = mset [0..<length xs]"
    by (simp add: lessThan_atLeast0)
  then have "image_mset ((!) xs) (mset_set {..<length xs}) = mset (map ((!) xs) [0..<length xs])"
    by (simp only: mset_map)
  then show ?thesis by (simp only: map_nth)
qed

lemma sstf_loop_add:
  "sstf_loop (a + b) reqs st =
     (case sstf_loop a reqs st of Inl e \<Rightarrow> Inl e | Inr st' \<Rightarrow> sstf_loop b reqs st')"
  by (induction a arbitrary: st) (auto split: sum.splits)

text \<open>
  Running \<open>n\<close> iterations from a state with at least \<open>n\<close> unvisited requests never raises;
  it appends \<open>n\<close> entries, marks \<open>n\<close> indices, and keeps the total equal to the cost of the
  path walked so far.
\<close>

lemma sstf_loop_run:
  assumes "length visited = length reqs" and "n \<le> card (unvisited visited)"
    and "tot = path_cost head seq" and "cur = last (head # seq)"
  shows "\<exists>visited' seq'.
           sstf_loop n reqs (visited, tot, cur, seq) =
             Inr (visited', path_cost head seq', last (head # seq'), seq')
           \<and> length visited' = length reqs
           \<and> card (unvisited visited') = card (unvisited visited) - n
           \<and> mset seq' + image_mset ((!) reqs) (mset_set (unvisited visited')) =
               mset seq + image_mset ((!) reqs) (mset_set (unvisited visited))
           \<and> length seq' = length seq + n
           \<and> take (length seq) seq' = seq"
  using assms
proof (induction n arbitrary: visited tot cur seq)
  case 0
  then show ?case by simp
next
  case (Suc n)
  then have ne: "unvisited visited \<noteq> {}" by auto
  from sstf_step_select[OF Suc.prems(1) ne] obtain i where
    i: "i < length reqs" "\<not> visited ! i"
    and st: "sstf_step reqs (visited, tot, cur, seq) =
                Inr (visited[i := True], tot + \<bar>cur - reqs ! i\<bar>, reqs ! i, seq @ [reqs ! i])"
    by blast
  have iu: "i \<in> unvisited visited" using i Suc.prems(1) by (simp add: unvisited_def)
  have un: "unvisited (visited[i := True]) = unvisited visited - {i}"
    using i Suc.prems(1) by (simp add: unvisited_mark)
  have c: "card (unvisited (visited[i := True])) = card (unvisited visited) - 1"
    using un iu finite_unvisited by simp
  have c': "n \<le> card (unvisited (visited[i := True]))"
    using c Suc.prems(2) by simp
  have l: "length (visited[i := True]) = length reqs" using Suc.prems(1) by simp
  have t: "tot + \<bar>cur - reqs ! i\<bar> = path_cost head (seq @ [reqs ! i])"
    using Suc.prems(3,4) by (simp only: path_cost_snoc)
  have cu: "reqs ! i = last (head # seq @ [reqs ! i])" by simp
  from Suc.IH[OF l c' t cu] obtain visited' seq' where
    r: "sstf_loop n reqs (visited[i := True], tot + \<bar>cur - reqs ! i\<bar>, reqs ! i, seq @ [reqs ! i]) =
             Inr (visited', path_cost head seq', last (head # seq'), seq')"
    and l': "length visited' = length reqs"
    and k: "card (unvisited visited') = card (unvisited (visited[i := True])) - n"
    and m: "mset seq' + image_mset ((!) reqs) (mset_set (unvisited visited')) =
              mset (seq @ [reqs ! i])
               + image_mset ((!) reqs) (mset_set (unvisited (visited[i := True])))"
    and ls: "length seq' = length (seq @ [reqs ! i]) + n"
    and tk: "take (length (seq @ [reqs ! i])) seq' = seq @ [reqs ! i]"
    by blast
  have "mset_set (unvisited visited) = add_mset i (mset_set (unvisited visited - {i}))"
    using iu finite_unvisited by (simp add: mset_set.remove)
  then have m': "mset seq' + image_mset ((!) reqs) (mset_set (unvisited visited')) =
                   mset seq + image_mset ((!) reqs) (mset_set (unvisited visited))"
    using m un by simp
  have k': "card (unvisited visited') = card (unvisited visited) - Suc n"
    using k c by simp
  have ls': "length seq' = length seq + Suc n" using ls by simp
  have "take (length seq) (take (length (seq @ [reqs ! i])) seq') = seq"
    by (simp only: tk) simp
  then have tk': "take (length seq) seq' = seq" by (simp add: min_def)
  have "sstf_loop (Suc n) reqs (visited, tot, cur, seq) =
          Inr (visited', path_cost head seq', last (head # seq'), seq')"
    using st r by simp
  then show ?case using l' k' m' ls' tk' by blast
qed

lemma sstf_result:
  "\<exists>seq. sstf reqs head = Inr (seq, path_cost head seq) \<and> mset seq = mset reqs"
proof (cases "reqs = []")
  case True
  then show ?thesis by (simp add: sstf_def)
next
  case False
  let ?v = "replicate (length reqs) False"
  have cu: "card (unvisited ?v) = length reqs" by (simp add: unvisited_replicate)
  have "\<exists>visited' seq'.
           sstf_loop (length reqs) reqs (?v, 0, head, []) =
             Inr (visited', path_cost head seq', last (head # seq'), seq')
           \<and> length visited' = length reqs
           \<and> card (unvisited visited') = card (unvisited ?v) - length reqs
           \<and> mset seq' + image_mset ((!) reqs) (mset_set (unvisited visited')) =
               mset [] + image_mset ((!) reqs) (mset_set (unvisited ?v))
           \<and> length seq' = length ([]::int list) + length reqs
           \<and> take (length ([]::int list)) seq' = []"
    by (rule sstf_loop_run) (simp_all add: cu)
  then obtain visited' seq' where
    r: "sstf_loop (length reqs) reqs (?v, 0, head, []) =
             Inr (visited', path_cost head seq', last (head # seq'), seq')"
    and k: "card (unvisited visited') = 0"
    and m: "mset seq' + image_mset ((!) reqs) (mset_set (unvisited visited')) =
               image_mset ((!) reqs) (mset_set (unvisited ?v))"
    by (auto simp: cu)
  have e: "unvisited visited' = {}" using k finite_unvisited by simp
  have m': "mset seq' = mset reqs"
    using m by (simp add: e unvisited_replicate mset_nth_upto)
  have "sstf reqs head = Inr (seq', path_cost head seq')"
    using False r by (simp add: sstf_def)
  then show ?thesis using m' by blast
qed

lemma mset_eq_count_list: "mset xs = mset ys \<Longrightarrow> count_list xs x = count_list ys x"
  by (metis count_mset)

lemma left_part_below: "x \<in> set (left_part reqs head) \<Longrightarrow> x < head"
  by (simp add: left_part_def)

lemma replay_last:
  assumes "steps_convertible head seq"
    and "replay ms seq head = Inr (c, p, rows)" and "seq \<noteq> []"
  shows "cumulativeSeek (last rows) = path_cost head seq"
proof -
  from replay_inv[OF assms(1), of ms] assms(2)
  have len: "length rows = length seq"
    and sum: "path_cost head seq = (\<Sum>k<length seq. stepDistance (rows ! k))"
    and ev: "\<forall>i<length seq. event_ok ms seq head rows i"
    by auto
  obtain n where n: "length seq = Suc n" using assms(3) by (cases seq) auto
  have "rows \<noteq> []" using len n by auto
  then have "last rows = rows ! n" using len n by (simp add: last_conv_nth)
  moreover have "cumulativeSeek (rows ! n) = (\<Sum>k\<le>n. stepDistance (rows ! k))"
    using ev n by (simp add: event_ok_def)
  ultimately show ?thesis using sum n by (simp add: lessThan_Suc_atMost)
qed

section \<open>The claims\<close>

subsection \<open>Permutation of the request list\<close>

text \<open>
  Claim C1. For every request list and every head position, \<^verbatim>\<open>sstf\<close> returns a plan (it
  does not raise) whose visit order is a permutation of the request list as a multiset, and
  so is the visit order of \<^verbatim>\<open>cscan\<close>, for every disk size and either value of the jump
  flag; sorting the visit order gives the sorted request list.
\<close>

theorem visit_order_permutation:
  "(\<exists>seq tot. sstf reqs head = Inr (seq, tot) \<and> mset seq = mset reqs \<and> sort seq = sort reqs)
   \<and> mset (fst (cscan reqs head ds cj)) = mset reqs
   \<and> sort (fst (cscan reqs head ds cj)) = sort reqs"
proof -
  from sstf_result[of reqs head] obtain seq where
    "sstf reqs head = Inr (seq, path_cost head seq)" and m: "mset seq = mset reqs" by blast
  then have a: "\<exists>seq tot. sstf reqs head = Inr (seq, tot) \<and> mset seq = mset reqs \<and> sort seq = sort reqs"
    using sort_cong_mset by blast
  have b: "mset (fst (cscan reqs head ds cj)) = mset reqs" by (rule mset_cscan)
  show ?thesis using a b sort_cong_mset[OF b] by blast
qed

theorem visit_order_permutation_witness:
  "(\<exists>seq tot. sstf [7, 2, 9] 5 = Inr (seq, tot) \<and> mset seq = mset [7, 2, 9] \<and> sort seq = sort [7, 2, 9])
   \<and> mset (fst (cscan [7, 2, 9] 5 10 True)) = mset [7, 2, 9]
   \<and> sort (fst (cscan [7, 2, 9] 5 10 True)) = sort [7, 2, 9]"
  by (rule visit_order_permutation)

subsection \<open>The jump flag of C-SCAN\<close>

text \<open>
  With the single request 60 and the head at 50 the left partition is empty, and yet the
  total is 149 without the jump and 348 with it: the flag does have an effect there.
\<close>

theorem cscan_flag_left_empty_counterexample:
  "\<not> (left_part [60] 50 = [] \<longrightarrow> snd (cscan [60] 50 200 False) = snd (cscan [60] 50 200 True))"
  by (simp add: cscan_def left_part_def right_part_def)

text \<open>
  Claim C2, as the code has it. For every non-empty request list, head and disk size, the
  total of \<^verbatim>\<open>cscan\<close> with \<^verbatim>\<open>count_jump=False\<close> is the total with \<^verbatim>\<open>count_jump=True\<close>
  minus \<^verbatim>\<open>disk_size - 1\<close>, whether the left partition is empty or not: the jump to
  cylinder 0 is charged unconditionally. The visit order does not depend on the flag.
\<close>

theorem cscan_jump_flag:
  assumes "reqs \<noteq> []"
  shows "snd (cscan reqs head ds False) = snd (cscan reqs head ds True) - (ds - 1)
     \<and> fst (cscan reqs head ds False) = fst (cscan reqs head ds True)"
  using assms by (simp add: cscan_unfold)

theorem cscan_jump_flag_witness:
  "[60] \<noteq> ([]::int list) \<and> left_part [60] 50 = []
   \<and> snd (cscan [60] 50 200 False) = snd (cscan [60] 50 200 True) - (200 - 1)
   \<and> fst (cscan [60] 50 200 False) = fst (cscan [60] 50 200 True)"
proof -
  have h: "[60] \<noteq> ([]::int list)" by simp
  have l: "left_part [60] 50 = []" by (simp add: left_part_def)
  show ?thesis using h l cscan_jump_flag[OF h, of 50 200] by simp
qed

subsection \<open>The worked SSTF example\<close>

text \<open>
  For the requests 98, 183, 37, 122, 14, 124, 65, 67 and the head at 53, \<^verbatim>\<open>sstf\<close>
  returns the total 236, not 640.
\<close>

theorem sstf_example_640_counterexample:
  "sstf [98, 183, 37, 122, 14, 124, 65, 67] 53 = Inr ([65, 67, 37, 14, 98, 122, 124, 183], 236)
   \<and> snd (projr (sstf [98, 183, 37, 122, 14, 124, 65, 67] 53)) \<noteq> 640"
  by (simp add: sstf_def)

text \<open>
  Claim C3, as the code has it. For the requests 98, 183, 37, 122, 14, 124, 65, 67 and the
  head at 53, the first scan of \<^verbatim>\<open>sstf\<close> selects index 6, the cylinder 65, at distance
  12; the visit order is 65, 67, 37, 14, 98, 122, 124, 183 and the total seek is 236.
\<close>

theorem sstf_example_total:
  "scan 53 (replicate 8 False) (enumerate 0 [98, 183, 37, 122, 14, 124, 65, 67]) None
      = Inr (Some (6, 12))
   \<and> [98, 183, 37, 122, 14, 124, 65, 67] ! 6 = (65::int)
   \<and> \<bar>53 - (65::int)\<bar> = 12
   \<and> sstf [98, 183, 37, 122, 14, 124, 65, 67] 53 = Inr ([65, 67, 37, 14, 98, 122, 124, 183], 236)"
  by (simp add: sstf_def eval_nat_numeral)

subsection \<open>The tie-break of SSTF\<close>

text \<open>
  Claim C4. In a run of \<^verbatim>\<open>sstf\<close> on any request list and head, take any iteration
  \<open>k + 1\<close> of the outer loop. The \<open>k\<close> iterations before it do not raise and leave a
  state \<open>(visited, tot, cur, seq)\<close>; the iteration selects an unvisited index \<open>i\<close> whose
  distance from \<open>cur\<close> is least among the unvisited requests, and every unvisited request
  at the same distance sits at an index \<open>j \<ge> i\<close> of the request list: among equidistant
  nearest candidates the earliest in the original order is taken. The request \<open>reqs ! i\<close>
  becomes entry \<open>k\<close> of the visit order that \<^verbatim>\<open>sstf\<close> returns.
\<close>

theorem sstf_tie_break:
  assumes k: "k < length reqs"
  shows "\<exists>visited tot cur seq i seqf totf.
     sstf_loop k reqs (replicate (length reqs) False, 0, head, []) = Inr (visited, tot, cur, seq)
     \<and> length visited = length reqs \<and> length seq = k
     \<and> i < length reqs \<and> \<not> visited ! i
     \<and> (\<forall>j<length reqs. \<not> visited ! j \<longrightarrow>
           \<bar>cur - reqs ! i\<bar> \<le> \<bar>cur - reqs ! j\<bar>
           \<and> (\<bar>cur - reqs ! j\<bar> = \<bar>cur - reqs ! i\<bar> \<longrightarrow> i \<le> j))
     \<and> sstf_step reqs (visited, tot, cur, seq) =
          Inr (visited[i := True], tot + \<bar>cur - reqs ! i\<bar>, reqs ! i, seq @ [reqs ! i])
     \<and> sstf reqs head = Inr (seqf, totf) \<and> seqf ! k = reqs ! i"
proof -
  let ?v = "replicate (length reqs) False"
  let ?n = "length reqs"
  have cu: "card (unvisited ?v) = ?n" by (simp add: unvisited_replicate)
  have "\<exists>visited seq.
           sstf_loop k reqs (?v, 0, head, []) =
             Inr (visited, path_cost head seq, last (head # seq), seq)
           \<and> length visited = length reqs
           \<and> card (unvisited visited) = card (unvisited ?v) - k
           \<and> mset seq + image_mset ((!) reqs) (mset_set (unvisited visited)) =
               mset [] + image_mset ((!) reqs) (mset_set (unvisited ?v))
           \<and> length seq = length ([]::int list) + k
           \<and> take (length ([]::int list)) seq = []"
    using k by (intro sstf_loop_run) (simp_all add: cu)
  then obtain visited seq where
    r1: "sstf_loop k reqs (?v, 0, head, []) =
             Inr (visited, path_cost head seq, last (head # seq), seq)"
    and l1: "length visited = length reqs"
    and c1: "card (unvisited visited) = ?n - k"
    and s1: "length seq = k"
    by (auto simp: cu)
  define tot where "tot = path_cost head seq"
  define cur where "cur = last (head # seq)"
  have ne: "unvisited visited \<noteq> {}" using c1 k by auto
  from sstf_step_select[OF l1 ne] obtain i where
    i: "i < length reqs" "\<not> visited ! i"
    and mn: "\<forall>j<length reqs. \<not> visited ! j \<longrightarrow>
                 \<bar>cur - reqs ! i\<bar> \<le> \<bar>cur - reqs ! j\<bar>
                 \<and> (\<bar>cur - reqs ! j\<bar> = \<bar>cur - reqs ! i\<bar> \<longrightarrow> i \<le> j)"
    and st: "sstf_step reqs (visited, tot, cur, seq) =
                Inr (visited[i := True], tot + \<bar>cur - reqs ! i\<bar>, reqs ! i, seq @ [reqs ! i])"
    by blast
  have iu: "i \<in> unvisited visited" using i l1 by (simp add: unvisited_def)
  have un: "unvisited (visited[i := True]) = unvisited visited - {i}"
    using i l1 by (simp add: unvisited_mark)
  have c2: "card (unvisited (visited[i := True])) = ?n - Suc k"
    using un iu finite_unvisited c1 by simp
  have l2: "length (visited[i := True]) = length reqs" using l1 by simp
  have t2: "tot + \<bar>cur - reqs ! i\<bar> = path_cost head (seq @ [reqs ! i])"
    unfolding tot_def cur_def by (simp only: path_cost_snoc)
  have cu2: "reqs ! i = last (head # seq @ [reqs ! i])" by simp
  have "\<exists>visited' seq'.
           sstf_loop (?n - Suc k) reqs
               (visited[i := True], tot + \<bar>cur - reqs ! i\<bar>, reqs ! i, seq @ [reqs ! i]) =
             Inr (visited', path_cost head seq', last (head # seq'), seq')
           \<and> length visited' = length reqs
           \<and> card (unvisited visited') = card (unvisited (visited[i := True])) - (?n - Suc k)
           \<and> mset seq' + image_mset ((!) reqs) (mset_set (unvisited visited')) =
               mset (seq @ [reqs ! i])
                 + image_mset ((!) reqs) (mset_set (unvisited (visited[i := True])))
           \<and> length seq' = length (seq @ [reqs ! i]) + (?n - Suc k)
           \<and> take (length (seq @ [reqs ! i])) seq' = seq @ [reqs ! i]"
    using l2 c2 t2 cu2 by (intro sstf_loop_run) simp_all
  then obtain visited' seqf where
    r2: "sstf_loop (?n - Suc k) reqs
               (visited[i := True], tot + \<bar>cur - reqs ! i\<bar>, reqs ! i, seq @ [reqs ! i]) =
             Inr (visited', path_cost head seqf, last (head # seqf), seqf)"
    and tk: "take (length (seq @ [reqs ! i])) seqf = seq @ [reqs ! i]"
    by blast
  have n: "?n = k + Suc (?n - Suc k)" using k by simp
  have "sstf_loop ?n reqs (?v, 0, head, []) =
          sstf_loop (Suc (?n - Suc k)) reqs (visited, tot, cur, seq)"
    by (subst n, simp only: sstf_loop_add r1) (simp add: tot_def cur_def)
  also have "\<dots> = Inr (visited', path_cost head seqf, last (head # seqf), seqf)"
    using st r2 by simp
  finally have full: "sstf_loop ?n reqs (?v, 0, head, []) =
      Inr (visited', path_cost head seqf, last (head # seqf), seqf)" .
  have ne': "reqs \<noteq> []" using k by auto
  have res: "sstf reqs head = Inr (seqf, path_cost head seqf)"
    using ne' full by (simp add: sstf_def)
  have "seqf ! k = take (Suc k) seqf ! k" by simp
  also have "\<dots> = (seq @ [reqs ! i]) ! k" using tk s1 by simp
  also have "\<dots> = reqs ! i" using s1 by (simp add: nth_append)
  finally have nth: "seqf ! k = reqs ! i" .
  have r1': "sstf_loop k reqs (?v, 0, head, []) = Inr (visited, tot, cur, seq)"
    using r1 by (simp add: tot_def cur_def)
  show ?thesis
    using r1' l1 s1 i mn st res nth by blast
qed

theorem sstf_tie_break_witness:
  "(0::nat) < length [10::int, 0] \<and>
   (\<exists>visited tot cur seq i seqf totf.
     sstf_loop 0 [10, 0] (replicate (length [10::int, 0]) False, 0, 5, []) = Inr (visited, tot, cur, seq)
     \<and> length visited = length [10::int, 0] \<and> length seq = 0
     \<and> i < length [10::int, 0] \<and> \<not> visited ! i
     \<and> (\<forall>j<length [10::int, 0]. \<not> visited ! j \<longrightarrow>
           \<bar>cur - [10, 0] ! i\<bar> \<le> \<bar>cur - [10, 0] ! j\<bar>
           \<and> (\<bar>cur - [10, 0] ! j\<bar> = \<bar>cur - [10, 0] ! i\<bar> \<longrightarrow> i \<le> j))
     \<and> sstf_step [10, 0] (visited, tot, cur, seq) =
          Inr (visited[i := True], tot + \<bar>cur - [10, 0] ! i\<bar>, [10, 0] ! i, seq @ [([10, 0] ! i)])
     \<and> sstf [10, 0] 5 = Inr (seqf, totf) \<and> seqf ! 0 = [10, 0] ! i)"
proof -
  have h: "(0::nat) < length [10::int, 0]" by simp
  show ?thesis by (rule conjI[OF h sstf_tie_break[OF h]])
qed

subsection \<open>A head outside the disk\<close>

text \<open>
  With the head at 300 on a disk of 200 cylinders, both functions return a full plan for
  the request 5; neither raises.
\<close>

theorem head_range_counterexample:
  "\<not> (0 \<le> (300::int) \<and> (300::int) \<le> 200 - 1)
   \<and> sstf [5] 300 = Inr ([5], 295) \<and> cscan [5] 300 200 True = ([5], 305)"
  by (simp add: sstf_def cscan_def left_part_def right_part_def)

text \<open>
  Claim C5, as the code has it. Neither \<^verbatim>\<open>sstf\<close> (which has no disk size among its
  arguments) nor \<^verbatim>\<open>cscan\<close> compares the head with the disk size: for a head outside
  \<open>[0, disk_size - 1]\<close> both return a complete plan, with one visit-order entry per
  request, and raise nothing.
\<close>

theorem head_out_of_range_no_check:
  assumes "head < 0 \<or> ds - 1 < head"
  shows "(\<exists>seq tot. sstf reqs head = Inr (seq, tot) \<and> length seq = length reqs)
     \<and> length (fst (cscan reqs head ds cj)) = length reqs"
proof -
  from sstf_result[of reqs head] obtain seq where
    "sstf reqs head = Inr (seq, path_cost head seq)" and m: "mset seq = mset reqs" by blast
  then have a: "\<exists>seq tot. sstf reqs head = Inr (seq, tot) \<and> length seq = length reqs"
    using mset_eq_length by blast
  have "mset (fst (cscan reqs head ds cj)) = mset reqs" by (rule mset_cscan)
  then have "length (fst (cscan reqs head ds cj)) = length reqs" by (rule mset_eq_length)
  then show ?thesis using a by blast
qed

theorem head_out_of_range_no_check_witness:
  "((300::int) < 0 \<or> 200 - 1 < (300::int))
   \<and> (\<exists>seq tot. sstf [5] 300 = Inr (seq, tot) \<and> length seq = length [5::int])
   \<and> length (fst (cscan [5] 300 200 True)) = length [5::int]"
proof -
  have h: "(300::int) < 0 \<or> 200 - 1 < (300::int)" by simp
  show ?thesis using h head_out_of_range_no_check[OF h, of "[5]" True] by blast
qed

subsection \<open>The move to the last cylinder\<close>

text \<open>
  Claim C6. For every non-empty request list: servicing the right partition leaves the
  visit order equal to that partition, a total \<open>tot_r\<close> and a position \<open>cur_r\<close> (the head
  itself, with total 0, when the partition is empty). The move to the end then puts the
  position at \<open>disk_size - 1\<close> and adds \<open>\<bar>(disk_size - 1) - cur_r\<bar>\<close> to the total (nothing
  when the position is there already) and leaves the visit order as it is, also when the
  right partition is empty. The visit order returned is the right partition followed by the
  left one, so \<open>disk_size - 1\<close> occurs in it exactly as often as among the requests; with the
  head on the disk (\<open>head \<le> disk_size - 1\<close>) all these occurrences come from the right
  partition.
\<close>

theorem cscan_boundary_move:
  assumes "reqs \<noteq> []"
  shows "\<exists>tot_r cur_r.
     service (right_part reqs head) ([], 0, head) = (right_part reqs head, tot_r, cur_r)
   \<and> (right_part reqs head = [] \<longrightarrow> tot_r = 0 \<and> cur_r = head)
   \<and> move_to_end ds (right_part reqs head, tot_r, cur_r)
        = (right_part reqs head, tot_r + \<bar>(ds - 1) - cur_r\<bar>, ds - 1)
   \<and> cscan reqs head ds cj =
        (right_part reqs head @ left_part reqs head,
         tot_r + \<bar>(ds - 1) - cur_r\<bar> + (if cj then ds - 1 else 0)
           + path_cost 0 (left_part reqs head))
   \<and> count_list (fst (cscan reqs head ds cj)) (ds - 1) = count_list reqs (ds - 1)
   \<and> (head \<le> ds - 1 \<longrightarrow>
        count_list (fst (cscan reqs head ds cj)) (ds - 1)
          = count_list (right_part reqs head) (ds - 1))"
proof -
  let ?r = "right_part reqs head" and ?l = "left_part reqs head"
  define tot_r where "tot_r = path_cost head ?r"
  define cur_r where "cur_r = last (head # ?r)"
  have a: "service ?r ([], 0, head) = (?r, tot_r, cur_r)"
    by (simp add: service_eq tot_r_def cur_r_def)
  have b: "?r = [] \<longrightarrow> tot_r = 0 \<and> cur_r = head"
    by (simp add: tot_r_def cur_r_def)
  have c: "move_to_end ds (?r, tot_r, cur_r) = (?r, tot_r + \<bar>(ds - 1) - cur_r\<bar>, ds - 1)"
    by simp
  have d: "cscan reqs head ds cj =
        (?r @ ?l, tot_r + \<bar>(ds - 1) - cur_r\<bar> + (if cj then ds - 1 else 0) + path_cost 0 ?l)"
    unfolding tot_r_def cur_r_def by (rule cscan_unfold[OF assms])
  have e: "count_list (fst (cscan reqs head ds cj)) (ds - 1) = count_list reqs (ds - 1)"
    by (rule mset_eq_count_list[OF mset_cscan])
  have f: "head \<le> ds - 1 \<longrightarrow>
        count_list (fst (cscan reqs head ds cj)) (ds - 1) = count_list ?r (ds - 1)"
  proof
    assume "head \<le> ds - 1"
    then have "ds - 1 \<notin> set ?l" using left_part_below[of "ds - 1" reqs head] by auto
    then have "count_list ?l (ds - 1) = 0" by (simp add: count_list_0_iff)
    then show "count_list (fst (cscan reqs head ds cj)) (ds - 1) = count_list ?r (ds - 1)"
      by (simp add: d)
  qed
  show ?thesis using a b c d e f by blast
qed

theorem cscan_boundary_move_witness:
  "[14, 37] \<noteq> ([]::int list) \<and> right_part [14, 37] 53 = [] \<and> (53::int) \<le> 200 - 1
   \<and> cscan [14, 37] 53 200 True = ([14, 37], \<bar>(200 - 1) - 53\<bar> + (200 - 1) + 37)
   \<and> count_list (fst (cscan [14, 37] 53 200 True)) (200 - 1) = 0"
proof -
  have h: "[14, 37] \<noteq> ([]::int list)" by simp
  have r: "right_part [14, 37] 53 = []" by (simp add: right_part_def)
  have l: "left_part [14, 37] 53 = [14, 37]" by (simp add: left_part_def)
  show ?thesis
    using h cscan_boundary_move[OF h, of 53 200 True] by (auto simp: r l)
qed

subsection \<open>The rows of the table\<close>




subsection \<open>The empty request list\<close>

text \<open>
  Claim C8. For the empty request list both \<^verbatim>\<open>sstf\<close> and \<^verbatim>\<open>cscan\<close> return the empty
  visit order with total seek 0 and raise nothing; for \<^verbatim>\<open>cscan\<close> this holds for every
  head, disk size and jump flag, so neither the move to the end nor the jump is charged.
\<close>

theorem empty_request_set:
  "sstf [] head = Inr ([], 0) \<and> cscan [] head ds cj = ([], 0)"
  by (simp add: sstf_def cscan_def)

subsection \<open>The worked C-SCAN example\<close>

text \<open>
  Claim C9. For the requests 98, 183, 37, 122, 14, 124, 65, 67, the head at 53, 200
  cylinders and the jump counted, \<^verbatim>\<open>cscan\<close> returns the total seek 382 and the visit order
  65, 67, 98, 122, 124, 183, 14, 37: the right partition ascending, then the left one.
\<close>

theorem cscan_example:
  "cscan [98, 183, 37, 122, 14, 124, 65, 67] 53 200 True
     = ([65, 67, 98, 122, 124, 183, 14, 37], 382)
   \<and> right_part [98, 183, 37, 122, 14, 124, 65, 67] 53 = [65, 67, 98, 122, 124, 183]
   \<and> left_part [98, 183, 37, 122, 14, 124, 65, 67] 53 = [14, 37]"
  by (simp add: cscan_def left_part_def right_part_def)

subsection \<open>The total of SSTF and the table\<close>

text \<open>
  For the request 5 and the head at \<open>2^1024\<close>, \<^verbatim>\<open>sstf\<close> returns the plan with total
  \<open>2^1024 - 5\<close>, and the table loop on that plan raises at its first entry: it has no final
  cumulative seek.
\<close>

theorem sstf_replay_overflow_counterexample:
  "sstf [5] (2 ^ 1024) = Inr ([5], 2 ^ 1024 - 5)
   \<and> replay (Finite False (2 ^ 52) (- 52)) [5] (2 ^ 1024) = Inl (OverflowError, [])"
  by (simp add: sstf_def replay_def int_times_float_def float_of_int_def int_too_large_def)

text \<open>
  Claim C10, as the code has it. For every request list and head, \<^verbatim>\<open>sstf\<close> returns a
  plan whose total is the cost of the path from the head along its visit order. Whenever
  every step distance of that plan is below \<open>2^1024 - 2^970\<close>, the table loop run on the
  visit order from the same head ends, and its final cumulative seek equals the plan's
  total; the last row shows that number. For \<^verbatim>\<open>cscan\<close> the two differ on the worked
  example (322 against 382), its total holding the move to the end and the jump as well.
\<close>

theorem sstf_replay_agrees:
  "(\<exists>seq tot. sstf reqs head = Inr (seq, tot) \<and> tot = path_cost head seq
      \<and> ((\<forall>i<length seq. \<not> int_too_large ((head # seq) ! i - seq ! i)) \<longrightarrow>
           (\<exists>rows. replay ms seq head = Inr (tot, last (head # seq), rows)
              \<and> (seq \<noteq> [] \<longrightarrow> cumulativeSeek (last rows) = tot))))
   \<and> (\<exists>rows. replay ms (fst (cscan [98, 183, 37, 122, 14, 124, 65, 67] 53 200 True)) 53
               = Inr (322, 37, rows))
   \<and> snd (cscan [98, 183, 37, 122, 14, 124, 65, 67] 53 200 True) = 382"
proof -
  from sstf_result[of reqs head] obtain seq where
    s: "sstf reqs head = Inr (seq, path_cost head seq)" by blast
  have l: "(\<forall>i<length seq. \<not> int_too_large ((head # seq) ! i - seq ! i)) \<longrightarrow>
           (\<exists>rows. replay ms seq head = Inr (path_cost head seq, last (head # seq), rows)
              \<and> (seq \<noteq> [] \<longrightarrow> cumulativeSeek (last rows) = path_cost head seq))"
  proof
    assume "\<forall>i<length seq. \<not> int_too_large ((head # seq) ! i - seq ! i)"
    then have ok: "steps_convertible head seq" by (simp add: steps_convertible_def)
    from replay_inv[OF ok, of ms] obtain rows where
      r: "replay ms seq head = Inr (path_cost head seq, last (head # seq), rows)" by blast
    have "seq \<noteq> [] \<longrightarrow> cumulativeSeek (last rows) = path_cost head seq"
      using replay_last[OF ok r] by blast
    then show "\<exists>rows. replay ms seq head = Inr (path_cost head seq, last (head # seq), rows)
              \<and> (seq \<noteq> [] \<longrightarrow> cumulativeSeek (last rows) = path_cost head seq)"
      using r by blast
  qed
  have a: "\<exists>seq tot. sstf reqs head = Inr (seq, tot) \<and> tot = path_cost head seq
      \<and> ((\<forall>i<length seq. \<not> int_too_large ((head # seq) ! i - seq ! i)) \<longrightarrow>
           (\<exists>rows. replay ms seq head = Inr (tot, last (head # seq), rows)
              \<and> (seq \<noteq> [] \<longrightarrow> cumulativeSeek (last rows) = tot)))"
    using s l by blast
  have c: "cscan [98, 183, 37, 122, 14, 124, 65, 67] 53 200 True
     = ([65, 67, 98, 122, 124, 183, 14, 37], 382)"
    by (simp add: cscan_def left_part_def right_part_def)
  have ok': "steps_convertible 53 [65, 67, 98, 122, 124, 183, 14, 37]"
    by (simp add: steps_convertible_def int_too_large_def less_Suc_eq eval_nat_numeral)
  obtain rows' where "replay ms [65, 67, 98, 122, 124, 183, 14, 37] 53
      = Inr (path_cost 53 [65, 67, 98, 122, 124, 183, 14, 37],
             last (53 # [65, 67, 98, 122, 124, 183, 14, 37]), rows')"
    using replay_inv[OF ok', of ms] by blast
  then have "replay ms [65, 67, 98, 122, 124, 183, 14, 37] 53 = Inr (322, 37, rows')"
    by simp
  then have b: "\<exists>rows. replay ms (fst (cscan [98, 183, 37, 122, 14, 124, 65, 67] 53 200 True)) 53
               = Inr (322, 37, rows)"
    by (auto simp: c)
  show ?thesis using a b c by simp
qed

theorem sstf_replay_agrees_witness:
  "sstf [7, 2, 9] 5 = Inr ([7, 9, 2], 11)
   \<and> \<not> int_too_large (5 - 7) \<and> \<not> int_too_large (7 - 9) \<and> \<not> int_too_large (9 - 2)
   \<and> (\<exists>rows. replay (Finite False (2 ^ 52) (- 51)) [7, 9, 2] 5 = Inr (11, 2, rows)
         \<and> cumulativeSeek (last rows) = 11)"
proof -
  let ?ms = "Finite False (2 ^ 52) (- 51)"
  have s: "sstf [7, 2, 9] 5 = Inr ([7, 9, 2], 11)" by (simp add: sstf_def)
  have h1: "\<not> int_too_large (5 - 7)" and h2: "\<not> int_too_large (7 - 9)"
    and h3: "\<not> int_too_large (9 - 2)"
    by (simp_all add: int_too_large_def)
  have h: "\<forall>i<length [7::int, 9, 2]. \<not> int_too_large ((5 # [7, 9, 2]) ! i - [7, 9, 2] ! i)"
    using h1 h2 h3 by (simp add: less_Suc_eq eval_nat_numeral)
  from sstf_replay_agrees[of "[7, 2, 9]" 5 ?ms]
  obtain seq tot where
    a: "sstf [7, 2, 9] 5 = Inr (seq, tot)" and b: "tot = path_cost 5 seq"
    and c: "(\<forall>i<length seq. \<not> int_too_large ((5 # seq) ! i - seq ! i)) \<longrightarrow>
           (\<exists>rows. replay ?ms seq 5 = Inr (tot, last (5 # seq), rows)
              \<and> (seq \<noteq> [] \<longrightarrow> cumulativeSeek (last rows) = tot))"
    by blast
  from a s have seq: "seq = [7, 9, 2]" and tot: "tot = 11" by simp_all
  from c h obtain rows where
    "replay ?ms [7, 9, 2] 5 = Inr (11, last (5 # [7, 9, 2]), rows)"
    "[7, 9, 2] \<noteq> ([]::int list) \<longrightarrow> cumulativeSeek (last rows) = 11"
    unfolding seq tot by blast
  then have "\<exists>rows. replay ?ms [7, 9, 2] 5 = Inr (11, 2, rows)
         \<and> cumulativeSeek (last rows) = 11"
    by auto
  then show ?thesis using s h1 h2 h3 by blast
qed

end
